theory Spec2Isabelle
  imports Main "HOL-Library.Multiset"
begin

section \<open>Grid map (Map.py)\<close>

text \<open>
  A position is the two-element list \<open>[row, col]\<close> (or the tuple \<open>(row, col)\<close>) of the
  source. Python integers are unbounded, so coordinates and costs are \<open>int\<close>; the cells
  of the integer array are 64-bit, and sums of costs are taken to stay in that range.
\<close>

type_synonym pos = "int \<times> int"

text \<open>
  The exceptions of the source. \<open>IndexTooLarge\<close> stands for what numpy raises for an index
  that does not fit a signed 64-bit integer (OverflowError, or IndexError on some
  conversion paths); the model keeps one value for it and does not say which.
\<close>

datatype error = IndexError | ValueError | TypeError | IndexTooLarge

text \<open>
  \<open>int_map\<close> and \<open>str_map\<close> are two-dimensional numpy arrays, modelled as lists of rows.
  The shape is (number of rows, length of the first row); a numpy array is rectangular.
\<close>

definition nrows :: "'a list list \<Rightarrow> nat" where
  "nrows g = length g"

definition ncols :: "'a list list \<Rightarrow> nat" where
  "ncols g = (case g of [] \<Rightarrow> 0 | r # _ \<Rightarrow> length r)"

text \<open>
  numpy indexing along one axis of length \<open>n\<close>: an index in \<open>[0, n)\<close> is used as it is, an
  index in \<open>[-n, 0)\<close> counts from the end, anything else fails. An array has fewer than
  \<open>2 ^ 63\<close> rows and columns, so an index that is in range fits 64 bits.
\<close>

definition np_index :: "nat \<Rightarrow> int \<Rightarrow> nat option" where
  "np_index n i =
     (if 0 \<le> i \<and> i < int n then Some (nat i)
      else if - int n \<le> i \<and> i < 0 then Some (nat (i + int n))
      else None)"

definition fits_intp :: "int \<Rightarrow> bool" where
  "fits_intp i = (- (2 ^ 63) \<le> i \<and> i < 2 ^ 63)"

text \<open>
  The failure of one index that is out of range, and of the subscript \<open>a[r, c]\<close>, which
  converts both indices before it checks either against the shape.
\<close>

definition index_error :: "int \<Rightarrow> error" where
  "index_error i = (if fits_intp i then IndexError else IndexTooLarge)"

definition subscript_error :: "pos \<Rightarrow> error" where
  "subscript_error p = (if fits_intp (fst p) \<and> fits_intp (snd p) then IndexError else IndexTooLarge)"

text \<open>Reading and writing \<open>a[r, c]\<close>.\<close>

definition np_get :: "'a list list \<Rightarrow> pos \<Rightarrow> error + 'a" where
  "np_get g p =
     (case np_index (nrows g) (fst p) of
        None \<Rightarrow> Inl (subscript_error p)
      | Some r \<Rightarrow>
          (case np_index (ncols g) (snd p) of
             None \<Rightarrow> Inl (subscript_error p)
           | Some c \<Rightarrow> Inr (g ! r ! c)))"

definition np_set :: "'a list list \<Rightarrow> pos \<Rightarrow> 'a \<Rightarrow> error + 'a list list" where
  "np_set g p v =
     (case np_index (nrows g) (fst p) of
        None \<Rightarrow> Inl (subscript_error p)
      | Some r \<Rightarrow>
          (case np_index (ncols g) (snd p) of
             None \<Rightarrow> Inl (subscript_error p)
           | Some c \<Rightarrow> Inr (g[r := (g ! r)[c := v]])))"

text \<open>
  Writing \<open>a[r][c]\<close>: the row is taken first (a view of the array), then its cell is
  written, so the row index fails before the column index is looked at.
\<close>

definition np_set_chain :: "'a list list \<Rightarrow> pos \<Rightarrow> 'a \<Rightarrow> error + 'a list list" where
  "np_set_chain g p v =
     (case np_index (nrows g) (fst p) of
        None \<Rightarrow> Inl (index_error (fst p))
      | Some r \<Rightarrow>
          (case np_index (ncols g) (snd p) of
             None \<Rightarrow> Inl (index_error (snd p))
           | Some c \<Rightarrow> Inr (g[r := (g ! r)[c := v]])))"

text \<open>
  The fields of \<open>Map_Obj\<close>. \<open>end_goal_pos\<close> may be \<open>None\<close> (\<open>tick\<close> tests for it).
  \<open>path_to_map\<close> is only used to read the file and is left out.
\<close>

record Map_Obj =
  start_pos :: pos
  goal_pos :: pos
  end_goal_pos :: "pos option"
  int_map :: "int list list"
  str_map :: "string list list"
  tmp_cell_value :: int
  tick_counter :: int

text \<open>\<open>get_cell_value\<close>: \<open>self.int_map[pos[0], pos[1]]\<close>, with no check of its own.\<close>

definition get_cell_value :: "Map_Obj \<Rightarrow> pos \<Rightarrow> error + int" where
  "get_cell_value m p = np_get (int_map m) p"

text \<open>
  The \<open>value\<close> argument of \<open>set_cell_value\<close> is a marker string when the string map is
  written and a cost when the integer map is written. Cells of \<open>str_map\<close> are modelled as
  unbounded strings (numpy's fixed cell width is longer than every symbol this program
  writes). Writing a marker string into the integer map makes numpy parse it as an
  integer; the markers are not numerals, which is ValueError, and numeral strings are
  not modelled.
\<close>

datatype cell_value = IntVal int | StrVal string

definition digit_char :: "nat \<Rightarrow> char" where
  "digit_char d = char_of (48 + d)"

function str_of_nat :: "nat \<Rightarrow> string" where
  "str_of_nat n = (if n < 10 then [digit_char n] else str_of_nat (n div 10) @ [digit_char (n mod 10)])"
  by pat_completeness auto
termination
  by (relation "measure id") auto

definition str_of_int :: "int \<Rightarrow> string" where
  "str_of_int i = (if i < 0 then CHR ''-'' # str_of_nat (nat (- i)) else str_of_nat (nat i))"

definition str_of_value :: "cell_value \<Rightarrow> string" where
  "str_of_value v = (case v of IntVal i \<Rightarrow> str_of_int i | StrVal s \<Rightarrow> s)"

definition set_cell_value :: "Map_Obj \<Rightarrow> pos \<Rightarrow> cell_value \<Rightarrow> bool \<Rightarrow> error + Map_Obj" where
  "set_cell_value m p v to_str_map =
     (if to_str_map then
        (case np_set (str_map m) p (str_of_value v) of
           Inl e \<Rightarrow> Inl e
         | Inr s \<Rightarrow> Inr (m\<lparr>str_map := s\<rparr>))
      else
        (case v of
           StrVal s \<Rightarrow> (case np_get (int_map m) p of Inl e \<Rightarrow> Inl e | Inr _ \<Rightarrow> Inl ValueError)
         | IntVal i \<Rightarrow>
             (case np_set (int_map m) p i of
                Inl e \<Rightarrow> Inl e
              | Inr g \<Rightarrow> Inr (m\<lparr>int_map := g\<rparr>))))"

text \<open>
  \<open>read_map\<close> without the file access: the integer array as parsed, and its rendering
  with the five known values replaced by their symbols.
\<close>

definition cost_symbol :: "int \<Rightarrow> string" where
  "cost_symbol v =
     (if v = -1 then '' # ''
      else if v = 1 then '' . ''
      else if v = 2 then '' , ''
      else if v = 3 then '' : ''
      else if v = 4 then '' ; ''
      else str_of_int v)"

definition read_map :: "int list list \<Rightarrow> int list list \<times> string list list" where
  "read_map data = (data, map (map cost_symbol) data)"

text \<open>
  The constructor, given what \<open>fill_critical_positions\<close> and the file give: the goal
  cell's cost is saved, then the start and goal markers are written to the string map.
\<close>

definition init_map :: "pos \<Rightarrow> pos \<Rightarrow> pos option \<Rightarrow> int list list \<Rightarrow> error + Map_Obj" where
  "init_map start goal end_goal data =
     (let m0 = \<lparr>start_pos = start, goal_pos = goal, end_goal_pos = end_goal,
                int_map = fst (read_map data), str_map = snd (read_map data),
                tmp_cell_value = 0, tick_counter = 0\<rparr>
      in case get_cell_value m0 goal of
           Inl e \<Rightarrow> Inl e
         | Inr v \<Rightarrow>
             (case set_cell_value (m0\<lparr>tmp_cell_value := v\<rparr>) start (StrVal '' S '') True of
                Inl e \<Rightarrow> Inl e
              | Inr m1 \<Rightarrow>
                  (case set_cell_value m1 goal (StrVal '' G '') True of
                     Inl e \<Rightarrow> Inl e
                   | Inr m2 \<Rightarrow> Inr (m2\<lparr>tick_counter := 0\<rparr>))))"

text \<open>\<open>pick_move\<close>: the next goal cell, rows first. Subscripting \<open>None\<close> raises TypeError.\<close>

definition pick_move :: "Map_Obj \<Rightarrow> error + pos" where
  "pick_move m =
     (case end_goal_pos m of
        None \<Rightarrow> Inl TypeError
      | Some e \<Rightarrow>
          (if fst (goal_pos m) < fst e then Inr (fst (goal_pos m) + 1, snd (goal_pos m))
           else if fst (goal_pos m) > fst e then Inr (fst (goal_pos m) - 1, snd (goal_pos m))
           else if snd (goal_pos m) < snd e then Inr (fst (goal_pos m), snd (goal_pos m) + 1)
           else Inr (fst (goal_pos m), snd (goal_pos m) - 1)))"

definition replace_map_values :: "Map_Obj \<Rightarrow> pos \<Rightarrow> int \<Rightarrow> pos \<Rightarrow> error + Map_Obj" where
  "replace_map_values m p v gp =
     (let str_value =
            (if v = 1 then '' . ''
             else if v = 2 then '' , ''
             else if v = 3 then '' : ''
             else if v = 4 then '' ; ''
             else str_of_int v)
      in case np_set_chain (int_map m) p v of
           Inl e \<Rightarrow> Inl e
         | Inr g \<Rightarrow>
             (case np_set_chain (str_map m) p str_value of
                Inl e \<Rightarrow> Inl e
              | Inr s1 \<Rightarrow>
                  (case np_set s1 gp '' G '' of
                     Inl e \<Rightarrow> Inl e
                   | Inr s2 \<Rightarrow> Inr (m\<lparr>int_map := g, str_map := s2\<rparr>))))"

definition move_goal_pos :: "Map_Obj \<Rightarrow> pos \<Rightarrow> error + Map_Obj" where
  "move_goal_pos m p =
     (let tmp_val = tmp_cell_value m; tmp_pos = goal_pos m
      in case get_cell_value m p of
           Inl e \<Rightarrow> Inl e
         | Inr v \<Rightarrow>
             replace_map_values (m\<lparr>tmp_cell_value := v, goal_pos := (fst p, snd p)\<rparr>)
               tmp_pos tmp_val (fst p, snd p))"

text \<open>
  \<open>tick\<close> returns the goal position and the updated object. The two early returns
  leave the method before \<open>self.tick_counter += 1\<close>.
\<close>

definition tick :: "Map_Obj \<Rightarrow> error + (pos \<times> Map_Obj)" where
  "tick m =
     (if tick_counter m mod 4 = 0 then
        (case end_goal_pos m of
           None \<Rightarrow> Inr (goal_pos m, m)
         | Some e \<Rightarrow>
             if e = goal_pos m then Inr (goal_pos m, m)
             else
               (case pick_move m of
                  Inl err \<Rightarrow> Inl err
                | Inr mv \<Rightarrow>
                    (case move_goal_pos m mv of
                       Inl err \<Rightarrow> Inl err
                     | Inr m1 \<Rightarrow>
                         Inr (goal_pos m1, m1\<lparr>tick_counter := tick_counter m1 + 1\<rparr>))))
      else Inr (goal_pos m, m\<lparr>tick_counter := tick_counter m + 1\<rparr>))"

section \<open>Search (a_star.py)\<close>

text \<open>
  A \<open>Node\<close> object: position, parent, and the three costs, which the constructor sets
  to 0 and \<open>add_costs\<close> overwrites before the node is pushed; after that a node is never
  written again, so a value stands for the object.
\<close>

datatype node = Node (position: pos) (parent: "node option") (actual: int) (h_cost: int) (total: int)

text \<open>\<open>__lt__\<close>: nodes are compared by total cost only.\<close>

definition node_lt :: "node \<Rightarrow> node \<Rightarrow> bool" where
  "node_lt a b = (total a < total b)"

text \<open>\<open>heuristic\<close>: mode 1 is the Manhattan distance, every other mode the squared distance.\<close>

definition heuristic :: "node \<Rightarrow> node \<Rightarrow> int \<Rightarrow> int" where
  "heuristic n goal_node mode =
     (let x = \<bar>fst (position n) - fst (position goal_node)\<bar>;
          y = \<bar>snd (position n) - snd (position goal_node)\<bar>
      in if mode = 1 then x + y else x ^ 2 + y ^ 2)"

subsection \<open>The binary heap of heapq\<close>

text \<open>
  \<open>heapq.heappush\<close> and \<open>heapq.heappop\<close> on a Python list, with the comparison of
  \<open>Node.__lt__\<close>. \<open>_siftdown\<close> moves the new item up towards the root, \<open>_siftup\<close> moves
  the hole at \<open>pos\<close> down to a leaf and then sifts the item back up.
\<close>

function siftdown_loop :: "node list \<Rightarrow> nat \<Rightarrow> nat \<Rightarrow> node \<Rightarrow> node list" where
  "siftdown_loop heap startpos p newitem =
     (if p > startpos then
        (let parentpos = (p - 1) div 2; par = heap ! parentpos
         in if node_lt newitem par
            then siftdown_loop (heap[p := par]) startpos parentpos newitem
            else heap[p := newitem])
      else heap[p := newitem])"
  by pat_completeness auto
termination
  by (relation "measure (\<lambda>(heap, startpos, p, newitem). p)") auto

definition siftdown :: "node list \<Rightarrow> nat \<Rightarrow> nat \<Rightarrow> node list" where
  "siftdown heap startpos p = siftdown_loop heap startpos p (heap ! p)"

function siftup_loop :: "node list \<Rightarrow> nat \<Rightarrow> nat \<Rightarrow> node list \<times> nat" where
  "siftup_loop heap endpos p =
     (let childpos = 2 * p + 1
      in if childpos < endpos then
           (let rightpos = childpos + 1;
                childpos1 = (if rightpos < endpos \<and> \<not> node_lt (heap ! childpos) (heap ! rightpos)
                             then rightpos else childpos)
            in siftup_loop (heap[p := heap ! childpos1]) endpos childpos1)
         else (heap, p))"
  by pat_completeness auto
termination
  by (relation "measure (\<lambda>(heap, endpos, p). endpos - p)") (auto simp: Let_def)

definition siftup :: "node list \<Rightarrow> nat \<Rightarrow> node list" where
  "siftup heap p =
     (let endpos = length heap; startpos = p; newitem = heap ! p;
          (heap1, p1) = siftup_loop heap endpos p
      in siftdown (heap1[p1 := newitem]) startpos p1)"

definition heappush :: "node list \<Rightarrow> node \<Rightarrow> node list" where
  "heappush heap item = siftdown (heap @ [item]) 0 (length heap)"

definition heappop :: "node list \<Rightarrow> error + (node \<times> node list)" where
  "heappop heap =
     (if heap = [] then Inl IndexError
      else
        (let lastelt = last heap; heap1 = butlast heap
         in if heap1 \<noteq> [] then Inr (hd heap1, siftup (heap1[0 := lastelt]) 0)
            else Inr (lastelt, heap1)))"

subsection \<open>Path reconstruction\<close>

text \<open>\<open>path_to_goal\<close>: append the positions along the parent links, then reverse.\<close>

fun path_loop :: "node option \<Rightarrow> pos list \<Rightarrow> pos list" where
  "path_loop None path = path"
| "path_loop (Some (Node p par a h t)) path = path_loop par (path @ [p])"

definition path_to_goal :: "node \<Rightarrow> pos list" where
  "path_to_goal n = rev (path_loop (Some n) [])"

subsection \<open>Node expansion\<close>

definition directions :: "(int \<times> int) list" where
  "directions = [(0, 1), (1, 0), (0, -1), (-1, 0)]"

text \<open>
  The first inner loop of \<open>a_star\<close>. It looks every neighbour up (a lookup that raises
  ends the search), skips walls, and collects the other neighbours as children with
  zero costs. The loop variable \<open>child_position\<close> is threaded through, because the code
  after the loop reads it; the list of directions is not empty, so the value it has
  before the first iteration is never seen.
\<close>

fun generate_children ::
  "Map_Obj \<Rightarrow> node \<Rightarrow> (int \<times> int) list \<Rightarrow> node list \<times> pos \<Rightarrow> error + (node list \<times> pos)" where
  "generate_children m current_node [] (children, child_position) = Inr (children, child_position)"
| "generate_children m current_node ((dx, dy) # ds) (children, child_position) =
     (let child_position1 = (fst (position current_node) + dy, snd (position current_node) + dx)
      in case get_cell_value m child_position1 of
           Inl e \<Rightarrow> Inl e
         | Inr v \<Rightarrow>
             if v = -1 then generate_children m current_node ds (children, child_position1)
             else generate_children m current_node ds
                    (children @ [Node child_position1 (Some current_node) 0 0 0], child_position1))"

text \<open>
  \<open>add_costs\<close> is handed \<open>child_position\<close>, the variable of the finished first loop, and
  reads the cost of that cell, whichever child it is called for.
\<close>

definition add_costs :: "Map_Obj \<Rightarrow> node \<Rightarrow> pos \<Rightarrow> node \<Rightarrow> node \<Rightarrow> int \<Rightarrow> error + node" where
  "add_costs m child child_position current_node goal_node heuristic_mode =
     (case get_cell_value m child_position of
        Inl e \<Rightarrow> Inl e
      | Inr v \<Rightarrow>
          (let a = actual current_node + v;
               h = heuristic child goal_node heuristic_mode
           in Inr (Node (position child) (parent child) a h (a + h))))"

text \<open>
  The second inner loop. A child whose position is in the closed list is skipped. The
  test \<open>child not in open_list\<close> compares objects by identity (\<open>Node\<close> has no \<open>__eq__\<close>)
  and the child was created in this iteration, so it always holds and the child is
  always pushed.
\<close>

fun push_children ::
  "Map_Obj \<Rightarrow> node list \<Rightarrow> pos \<Rightarrow> node \<Rightarrow> node \<Rightarrow> int \<Rightarrow> pos list \<Rightarrow> node list \<Rightarrow> error + node list" where
  "push_children m [] child_position current_node goal_node mode closed_list open_list = Inr open_list"
| "push_children m (child # rest) child_position current_node goal_node mode closed_list open_list =
     (if position child \<in> set closed_list
      then push_children m rest child_position current_node goal_node mode closed_list open_list
      else
        (case add_costs m child child_position current_node goal_node mode of
           Inl e \<Rightarrow> Inl e
         | Inr child1 \<Rightarrow>
             push_children m rest child_position current_node goal_node mode closed_list
               (heappush open_list child1)))"

subsection \<open>The main loop\<close>

text \<open>
  One iteration of \<open>while open_list\<close>, on a non-empty open list: either the search ends
  (\<open>Inl\<close>: an exception, or the returned path) or it goes on with the new lists (\<open>Inr\<close>).
\<close>

definition a_star_step ::
  "Map_Obj \<Rightarrow> node \<Rightarrow> int \<Rightarrow> node list \<times> pos list
     \<Rightarrow> (error + pos list option) + (node list \<times> pos list)" where
  "a_star_step m goal_node mode st =
     (case st of (open_list, closed_list) \<Rightarrow>
        (case heappop open_list of
           Inl e \<Rightarrow> Inl (Inl e)
         | Inr (current_node, open1) \<Rightarrow>
             (let closed1 = closed_list @ [position current_node]
              in if position current_node = position goal_node
                 then Inl (Inr (Some (path_to_goal current_node)))
                 else
                   (case generate_children m current_node directions ([], position current_node) of
                      Inl e \<Rightarrow> Inl (Inl e)
                    | Inr (children, child_position) \<Rightarrow>
                        (case push_children m children child_position current_node goal_node mode
                                closed1 open1 of
                           Inl e \<Rightarrow> Inl (Inl e)
                         | Inr open2 \<Rightarrow> Inr (open2, closed1))))))"

text \<open>
  The loop of \<open>a_star\<close>: it returns \<open>None\<close> when the open list is empty. The recursion is
  shown to end for every map and every pair of lists further down.
\<close>

function a_star_loop ::
  "Map_Obj \<Rightarrow> node \<Rightarrow> int \<Rightarrow> node list \<Rightarrow> pos list \<Rightarrow> error + pos list option" where
  "a_star_loop m goal_node mode open_list closed_list =
     (if open_list = [] then Inr None
      else
        (case a_star_step m goal_node mode (open_list, closed_list) of
           Inl r \<Rightarrow> r
         | Inr (open1, closed1) \<Rightarrow> a_star_loop m goal_node mode open1 closed1))"
  by pat_completeness auto

definition a_star :: "Map_Obj \<Rightarrow> pos \<Rightarrow> pos \<Rightarrow> int \<Rightarrow> error + pos list option" where
  "a_star m start goal heuristic_mode =
     (let start_node = Node start None 0 0 0;
          goal_node = Node goal None 0 0 0;
          open_list = heappush [] start_node
      in a_star_loop m goal_node heuristic_mode open_list [])"

subsection \<open>Measure for the main loop\<close>

text \<open>
  The positions a lookup accepts form a finite box. A node counts \<open>5 ^ k\<close> when its
  position is in the box and not yet closed, where \<open>k\<close> is the number of such positions,
  and \<open>5 ^ (k + 1)\<close> otherwise. An iteration removes one node and adds at most four
  children on unclosed positions of the box, which lowers the sum.
\<close>

definition box :: "Map_Obj \<Rightarrow> pos set" where
  "box m = {p. np_index (nrows (int_map m)) (fst p) \<noteq> None \<and>
               np_index (ncols (int_map m)) (snd p) \<noteq> None}"

definition unclosed :: "Map_Obj \<Rightarrow> pos list \<Rightarrow> nat" where
  "unclosed m closed_list = card (box m - set closed_list)"

definition lvl :: "Map_Obj \<Rightarrow> pos list \<Rightarrow> pos \<Rightarrow> nat" where
  "lvl m closed_list p =
     (if p \<in> box m \<and> p \<notin> set closed_list then unclosed m closed_list
      else Suc (unclosed m closed_list))"

definition potential :: "Map_Obj \<Rightarrow> node list \<Rightarrow> pos list \<Rightarrow> nat" where
  "potential m open_list closed_list =
     sum_mset (image_mset (\<lambda>n. 5 ^ lvl m closed_list (position n)) (mset open_list))"

subsection \<open>Parent links of the nodes the search creates\<close>

text \<open>
  The cell next to \<open>p\<close> in direction \<open>(dx, dy)\<close>, as \<open>a_star\<close> computes it, and what the
  search knows of a child it creates from \<open>cur\<close>: it points back to \<open>cur\<close>, lies next to
  it, and its cell was looked up and is not a wall.
\<close>

definition neighbour :: "pos \<Rightarrow> int \<times> int \<Rightarrow> pos" where
  "neighbour p d = (fst p + snd d, snd p + fst d)"

definition child_of :: "Map_Obj \<Rightarrow> node \<Rightarrow> node \<Rightarrow> bool" where
  "child_of m cur c = (parent c = Some cur \<and>
      (\<exists>d \<in> set directions. position c = neighbour (position cur) d) \<and>
      (\<exists>v. get_cell_value m (position c) = Inr v \<and> v \<noteq> -1))"


text \<open>
  The positions along the parent links of a node, the node first; and the predicate that
  these links lead, one neighbouring cell at a time, to the start node as \<open>a_star\<close>
  creates it (no parent, zero costs).
\<close>

fun chain :: "node \<Rightarrow> pos list" where
  "chain (Node p par a h t) = p # (case par of None \<Rightarrow> [] | Some q \<Rightarrow> chain q)"

fun from_start :: "pos \<Rightarrow> node \<Rightarrow> bool" where
  "from_start s (Node p par a h t) =
     (case par of
        None \<Rightarrow> Node p par a h t = Node s None 0 0 0
      | Some q \<Rightarrow> (\<exists>d \<in> set directions. p = neighbour (position q) d) \<and> from_start s q)"

fun root :: "node \<Rightarrow> node" where
  "root (Node p par a h t) = (case par of None \<Rightarrow> Node p par a h t | Some q \<Rightarrow> root q)"

section \<open>What the specification asks of a path\<close>

text \<open>
  Two positions are one orthogonal step apart when they differ by exactly 1 in exactly
  one component. A path is contiguous when consecutive positions are one step apart.
\<close>

definition orthogonal_step :: "pos \<Rightarrow> pos \<Rightarrow> bool" where
  "orthogonal_step p q =
     ((\<bar>fst p - fst q\<bar> = 1 \<and> snd p = snd q) \<or> (fst p = fst q \<and> \<bar>snd p - snd q\<bar> = 1))"

fun contiguous :: "pos list \<Rightarrow> bool" where
  "contiguous [] = True"
| "contiguous [p] = True"
| "contiguous (p # q # ps) = (orthogonal_step p q \<and> contiguous (q # ps))"

text \<open>
  An obstacle-avoiding orthogonal path from \<open>start\<close> to \<open>goal\<close>: every cell is in the
  grid and is not the obstacle sentinel. Its cost is the sum of the costs of the cells
  entered, the start cell excluded.
\<close>

definition in_grid :: "'a list list \<Rightarrow> pos \<Rightarrow> bool" where
  "in_grid g p = (0 \<le> fst p \<and> fst p < int (nrows g) \<and> 0 \<le> snd p \<and> snd p < int (ncols g))"

definition passable :: "Map_Obj \<Rightarrow> pos \<Rightarrow> bool" where
  "passable m p = (in_grid (int_map m) p \<and> get_cell_value m p \<noteq> Inr (-1))"

definition is_path :: "Map_Obj \<Rightarrow> pos \<Rightarrow> pos \<Rightarrow> pos list \<Rightarrow> bool" where
  "is_path m start goal path =
     (path \<noteq> [] \<and> hd path = start \<and> last path = goal \<and> contiguous path \<and>
      list_all (passable m) path)"

definition cell_cost :: "Map_Obj \<Rightarrow> pos \<Rightarrow> int" where
  "cell_cost m p = (case get_cell_value m p of Inr v \<Rightarrow> v | Inl e \<Rightarrow> 0)"

definition path_cost :: "Map_Obj \<Rightarrow> pos list \<Rightarrow> int" where
  "path_cost m path = sum_list (map (cell_cost m) (tl path))"

section \<open>What the specification asks of the moving goal\<close>

text \<open>
  The priority rule in the specification's words: row +1 if the goal's row is smaller
  than the end goal's, else row -1 if it is larger, else column +1 if the goal's column
  is smaller, else column -1.
\<close>

definition priority_step :: "pos \<Rightarrow> pos \<Rightarrow> pos" where
  "priority_step g e =
     (if fst g < fst e then (fst g + 1, snd g)
      else if fst g > fst e then (fst g - 1, snd g)
      else if snd g < snd e then (fst g, snd g + 1)
      else (fst g, snd g - 1))"

text \<open>Calling \<open>tick\<close> \<open>n\<close> times in a row, collecting what each call returns.\<close>

fun ticks :: "nat \<Rightarrow> Map_Obj \<Rightarrow> error + (pos list \<times> Map_Obj)" where
  "ticks 0 m = Inr ([], m)"
| "ticks (Suc n) m =
     (case tick m of
        Inl e \<Rightarrow> Inl e
      | Inr (p, m1) \<Rightarrow>
          (case ticks n m1 of
             Inl e \<Rightarrow> Inl e
           | Inr (ps, m2) \<Rightarrow> Inr (p # ps, m2)))"

text \<open>
  What the constructor establishes and \<open>tick\<close> keeps: both arrays have the same shape,
  the goal is a cell of the grid, and \<open>tmp_cell_value\<close> holds the cost of the goal cell.
\<close>

definition map_inv :: "Map_Obj \<Rightarrow> bool" where
  "map_inv m =
     (nrows (str_map m) = nrows (int_map m) \<and> ncols (str_map m) = ncols (int_map m) \<and>
      in_grid (int_map m) (goal_pos m) \<and>
      get_cell_value m (goal_pos m) = Inr (tmp_cell_value m))"

section \<open>Example maps\<close>

text \<open>
  A 4 x 5 grid with a wall all around; inside, the upper row costs 1, 4, 1 and the lower
  row 1, 1, 1. \<open>walled_map\<close> is what the constructor builds for start (1,1) and a fixed
  goal (1,3); \<open>moving_map\<close> has the end goal (2,1) instead.
\<close>

definition walled_grid :: "int list list" where
  "walled_grid =
     [[-1, -1, -1, -1, -1],
      [-1,  1,  4,  1, -1],
      [-1,  1,  1,  1, -1],
      [-1, -1, -1, -1, -1]]"

definition walled_symbols :: "string list list" where
  "walled_symbols =
     [['' # '', '' # '', '' # '', '' # '', '' # ''],
      ['' # '', '' S '', '' ; '', '' G '', '' # ''],
      ['' # '', '' . '', '' . '', '' . '', '' # ''],
      ['' # '', '' # '', '' # '', '' # '', '' # '']]"

definition walled_map :: Map_Obj where
  "walled_map =
     \<lparr>start_pos = (1, 1), goal_pos = (1, 3), end_goal_pos = Some (1, 3),
      int_map = walled_grid, str_map = walled_symbols,
      tmp_cell_value = 1, tick_counter = 0\<rparr>"

definition moving_map :: Map_Obj where
  "moving_map =
     \<lparr>start_pos = (1, 1), goal_pos = (1, 3), end_goal_pos = Some (2, 1),
      int_map = walled_grid, str_map = walled_symbols,
      tmp_cell_value = 1, tick_counter = 0\<rparr>"

text \<open>
  A 3 x 3 grid without a wall around it, whose centre is enclosed by four obstacles, and
  a 3 x 5 grid whose two free cells are each enclosed by obstacles.
\<close>

definition open_grid :: "int list list" where
  "open_grid =
     [[ 1, -1,  1],
      [-1,  1, -1],
      [ 1, -1,  1]]"

definition open_map :: Map_Obj where
  "open_map =
     \<lparr>start_pos = (2, 2), goal_pos = (1, 1), end_goal_pos = Some (1, 1),
      int_map = open_grid,
      str_map = [['' . '', '' # '', '' . ''],
                 ['' # '', '' G '', '' # ''],
                 ['' . '', '' # '', '' S '']],
      tmp_cell_value = 1, tick_counter = 0\<rparr>"

definition split_grid :: "int list list" where
  "split_grid =
     [[-1, -1, -1, -1, -1],
      [-1,  1, -1,  1, -1],
      [-1, -1, -1, -1, -1]]"

definition split_map :: Map_Obj where
  "split_map =
     \<lparr>start_pos = (1, 1), goal_pos = (1, 3), end_goal_pos = Some (1, 3),
      int_map = split_grid,
      str_map = [['' # '', '' # '', '' # '', '' # '', '' # ''],
                 ['' # '', '' S '', '' # '', '' G '', '' # ''],
                 ['' # '', '' # '', '' # '', '' # '', '' # '']],
      tmp_cell_value = 1, tick_counter = 0\<rparr>"

section \<open>Properties of the heap\<close>

declare siftdown_loop.simps [simp del] siftup_loop.simps [simp del]


lemma mset_update_swap:
  assumes "p < length heap" "q < length heap" "q \<noteq> p"
  shows "mset (heap[p := heap ! q, q := x]) = mset (heap[p := x])"
  using assms by (simp add: mset_update nth_list_update)

lemma siftdown_loop_mset:
  "p < length heap \<Longrightarrow> mset (siftdown_loop heap s p x) = mset (heap[p := x])"
proof (induction heap s p x rule: siftdown_loop.induct)
  case (1 heap startpos p newitem)
  show ?case
  proof (cases "p > startpos \<and> node_lt newitem (heap ! ((p - 1) div 2))")
    case True
    then have q: "(p - 1) div 2 < length heap" "(p - 1) div 2 \<noteq> p"
      using "1.prems" by auto
    have "mset (siftdown_loop (heap[p := heap ! ((p - 1) div 2)]) startpos ((p - 1) div 2) newitem)
          = mset (heap[p := heap ! ((p - 1) div 2), (p - 1) div 2 := newitem])"
      using "1.IH"[OF _ refl refl] True q by simp
    also have "\<dots> = mset (heap[p := newitem])"
      using mset_update_swap[OF "1.prems" q] .
    finally show ?thesis
      using True by (subst siftdown_loop.simps) (simp add: Let_def)
  next
    case False
    then show ?thesis
      by (subst siftdown_loop.simps) (auto simp: Let_def)
  qed
qed

lemma siftdown_mset: "p < length heap \<Longrightarrow> mset (siftdown heap s p) = mset heap"
  by (simp add: siftdown_def siftdown_loop_mset)

lemma siftup_loop_mset:
  "p < length heap \<Longrightarrow> endpos \<le> length heap \<Longrightarrow> siftup_loop heap endpos p = (h1, p1) \<Longrightarrow>
     p1 < length h1 \<and> mset (h1[p1 := x]) = mset (heap[p := x])"
proof (induction heap endpos p arbitrary: h1 p1 rule: siftup_loop.induct)
  case (1 heap endpos p)
  show ?case
  proof (cases "2 * p + 1 < endpos")
    case False
    then show ?thesis using "1.prems" by (subst (asm) siftup_loop.simps) (auto simp: Let_def)
  next
    case True
    define c where "c = (if 2 * p + 1 + 1 < endpos \<and> \<not> node_lt (heap ! (2 * p + 1)) (heap ! (2 * p + 1 + 1))
                             then 2 * p + 1 + 1 else 2 * p + 1)"
    have c: "c < length heap" "c \<noteq> p" "c < endpos"
      using True "1.prems"(2) by (auto simp: c_def)
    have step: "siftup_loop heap endpos p = siftup_loop (heap[p := heap ! c]) endpos c"
      using True by (subst siftup_loop.simps) (simp add: Let_def c_def)
    have "p1 < length h1 \<and> mset (h1[p1 := x]) = mset (heap[p := heap ! c, c := x])"
      using "1.IH"[OF refl True refl c_def, of h1 p1] c "1.prems" step by simp
    then show ?thesis
      using mset_update_swap[OF "1.prems"(1) c(1) c(2)] by simp
  qed
qed

lemma siftup_mset: "p < length heap \<Longrightarrow> mset (siftup heap p) = mset heap"
proof -
  assume p: "p < length heap"
  obtain h1 p1 where e: "siftup_loop heap (length heap) p = (h1, p1)" by force
  from siftup_loop_mset[OF p _ e, of "heap ! p"]
  have "p1 < length h1" "mset (h1[p1 := heap ! p]) = mset heap" by auto
  then show ?thesis
    by (simp add: siftup_def e Let_def siftdown_mset)
qed

lemma heappush_mset: "mset (heappush heap item) = add_mset item (mset heap)"
  by (simp add: heappush_def siftdown_mset)

lemma heappop_mset:
  assumes "heappop heap = Inr (x, h1)"
  shows "mset heap = add_mset x (mset h1)"
proof (cases "heap = []")
  case True
  with assms show ?thesis by (simp add: heappop_def)
next
  case False
  then have split: "heap = butlast heap @ [last heap]" by simp
  show ?thesis
  proof (cases "butlast heap = []")
    case True
    with assms False split show ?thesis
      by (auto simp: heappop_def Let_def)
  next
    case n: False
    then obtain y ys where ys: "butlast heap = y # ys" by (cases "butlast heap") auto
    from assms False n have x: "x = hd (butlast heap)"
      and h1: "h1 = siftup ((butlast heap)[0 := last heap]) 0"
      by (auto simp: heappop_def Let_def)
    have "mset h1 = add_mset (last heap) (mset ys)"
      unfolding h1 using ys by (simp add: siftup_mset)
    moreover have "mset heap = add_mset (last heap) (add_mset y (mset ys))"
      by (subst split) (simp add: ys)
    ultimately show ?thesis using x ys by simp
  qed
qed


lemma get_cell_value_box: "get_cell_value m p = Inr v \<Longrightarrow> p \<in> box m"
  by (auto simp: get_cell_value_def np_get_def box_def split: option.splits)

lemma finite_box: "finite (box m)"
proof -
  have "box m \<subseteq> {- int (nrows (int_map m)) ..< int (nrows (int_map m))}
                 \<times> {- int (ncols (int_map m)) ..< int (ncols (int_map m))}"
    by (auto simp: box_def np_index_def split: if_splits)
  then show ?thesis by (rule finite_subset) simp
qed

lemma generate_children_Inr:
  "generate_children m cur ds (acc, cp) = Inr (children, cp1) \<Longrightarrow>
     length children \<le> length acc + length ds \<and>
     (\<forall>c \<in> set children. c \<in> set acc \<or>
        (parent c = Some cur \<and> (\<exists>d \<in> set ds. position c = neighbour (position cur) d) \<and>
         (\<exists>v. get_cell_value m (position c) = Inr v \<and> v \<noteq> -1)))"
proof (induction ds arbitrary: acc cp)
  case Nil
  then show ?case by simp
next
  case (Cons d ds)
  obtain dx dy where d: "d = (dx, dy)" by (cases d)
  let ?p = "(fst (position cur) + dy, snd (position cur) + dx)"
  from Cons.prems obtain v where v: "get_cell_value m ?p = Inr v"
    by (auto simp: d Let_def split: sum.splits)
  show ?case
  proof (cases "v = -1")
    case True
    with Cons.prems v have "generate_children m cur ds (acc, ?p) = Inr (children, cp1)"
      by (simp add: d Let_def)
    from Cons.IH[OF this] show ?thesis by auto
  next
    case False
    with Cons.prems v
    have "generate_children m cur ds (acc @ [Node ?p (Some cur) 0 0 0], ?p) = Inr (children, cp1)"
      by (simp add: d Let_def)
    from Cons.IH[OF this] v False show ?thesis
      by (auto simp: d neighbour_def)
  qed
qed

lemma generate_children_Inl:
  "generate_children m cur ds (acc, cp) = Inl e \<Longrightarrow>
     \<exists>d \<in> set ds. get_cell_value m (neighbour (position cur) d) = Inl e"
proof (induction ds arbitrary: acc cp)
  case Nil
  then show ?case by simp
next
  case (Cons d ds)
  obtain dx dy where d: "d = (dx, dy)" by (cases d)
  let ?p = "(fst (position cur) + dy, snd (position cur) + dx)"
  show ?case
  proof (cases "get_cell_value m ?p")
    case (Inl e')
    with Cons.prems show ?thesis by (auto simp: d neighbour_def Let_def)
  next
    case (Inr v)
    with Cons.prems obtain acc' where "generate_children m cur ds (acc', ?p) = Inl e"
      by (auto simp: d Let_def split: if_splits)
    from Cons.IH[OF this] show ?thesis by auto
  qed
qed

lemma generate_children_last:
  "generate_children m cur ds (acc, cp) = Inr (children, cp1) \<Longrightarrow>
     cp1 = (if ds = [] then cp else neighbour (position cur) (last ds))"
proof (induction ds arbitrary: acc cp)
  case Nil
  then show ?case by simp
next
  case (Cons d ds)
  obtain dx dy where d: "d = (dx, dy)" by (cases d)
  let ?p = "(fst (position cur) + dy, snd (position cur) + dx)"
  from Cons.prems obtain acc' where "generate_children m cur ds (acc', ?p) = Inr (children, cp1)"
    by (auto simp: d Let_def split: sum.splits if_splits)
  from Cons.IH[OF this] show ?case by (auto simp: d neighbour_def)
qed


lemma add_costs_Inr:
  "add_costs m child cp cur g mode = Inr c1 \<Longrightarrow>
     position c1 = position child \<and> parent c1 = parent child"
  by (auto simp: add_costs_def Let_def split: sum.splits)

lemma add_costs_Inl: "add_costs m child cp cur g mode = Inl e \<Longrightarrow> get_cell_value m cp = Inl e"
  by (auto simp: add_costs_def Let_def split: sum.splits)

lemma push_children_Inr:
  "push_children m children cp cur g mode closed_list open_list = Inr open2 \<Longrightarrow>
     \<exists>new. mset open2 = mset open_list + mset new \<and> length new \<le> length children \<and>
       (\<forall>n \<in> set new. position n \<notin> set closed_list \<and>
          (\<exists>c \<in> set children. position n = position c \<and> parent n = parent c))"
proof (induction children arbitrary: open_list)
  case Nil
  then have "mset open2 = mset open_list + mset []" by simp
  then show ?case by force
next
  case (Cons child rest)
  show ?case
  proof (cases "position child \<in> set closed_list")
    case True
    with Cons.prems have "push_children m rest cp cur g mode closed_list open_list = Inr open2"
      by simp
    from Cons.IH[OF this] obtain new where
      "mset open2 = mset open_list + mset new" "length new \<le> length rest"
      "\<forall>n \<in> set new. position n \<notin> set closed_list \<and>
          (\<exists>c \<in> set rest. position n = position c \<and> parent n = parent c)"
      by blast
    then show ?thesis
      by (intro exI[of _ new]) auto
  next
    case False
    with Cons.prems obtain c1 where c1: "add_costs m child cp cur g mode = Inr c1"
      and rest: "push_children m rest cp cur g mode closed_list (heappush open_list c1) = Inr open2"
      by (auto split: sum.splits)
    from Cons.IH[OF rest] obtain new where new:
      "mset open2 = mset (heappush open_list c1) + mset new" "length new \<le> length rest"
      "\<forall>n \<in> set new. position n \<notin> set closed_list \<and>
          (\<exists>c \<in> set rest. position n = position c \<and> parent n = parent c)"
      by blast
    from add_costs_Inr[OF c1] False new show ?thesis
      by (intro exI[of _ "c1 # new"]) (auto simp: heappush_mset)
  qed
qed

lemma push_children_Inl:
  "push_children m children cp cur g mode closed_list open_list = Inl e \<Longrightarrow>
     get_cell_value m cp = Inl e"
proof (induction children arbitrary: open_list)
  case Nil
  then show ?case by simp
next
  case (Cons child rest)
  then show ?case
    by (auto split: if_splits sum.splits dest: add_costs_Inl)
qed

lemma a_star_step_Inr:
  assumes "a_star_step m g mode (open_list, closed_list) = Inr (open2, closed2)"
  shows "\<exists>cur open1 new. mset open_list = add_mset cur (mset open1) \<and>
           mset open2 = mset open1 + mset new \<and>
           closed2 = closed_list @ [position cur] \<and> position cur \<noteq> position g \<and>
           length new \<le> 4 \<and> (\<forall>n \<in> set new. child_of m cur n \<and> position n \<notin> set closed2)"
proof -
  from assms obtain cur open1 where pop: "heappop open_list = Inr (cur, open1)"
    by (auto simp: a_star_step_def split: sum.splits)
  from assms pop have ng: "position cur \<noteq> position g"
    by (auto simp: a_star_step_def Let_def split: if_splits)
  from assms pop ng obtain children cp where
    gen: "generate_children m cur directions ([], position cur) = Inr (children, cp)"
    by (auto simp: a_star_step_def Let_def split: sum.splits)
  from assms pop ng gen have
    push: "push_children m children cp cur g mode (closed_list @ [position cur]) open1 = Inr open2"
    and c2: "closed2 = closed_list @ [position cur]"
    by (auto simp: a_star_step_def Let_def split: sum.splits)
  from generate_children_Inr[OF gen] have len: "length children \<le> 4"
    and ch: "\<forall>c \<in> set children. child_of m cur c"
    by (auto simp: directions_def child_of_def)
  from push_children_Inr[OF push] obtain new where new:
    "mset open2 = mset open1 + mset new" "length new \<le> length children"
    "\<forall>n \<in> set new. position n \<notin> set (closed_list @ [position cur]) \<and>
          (\<exists>c \<in> set children. position n = position c \<and> parent n = parent c)"
    by blast
  have "\<forall>n \<in> set new. child_of m cur n \<and> position n \<notin> set closed2"
    using new(3) ch c2 unfolding child_of_def by metis
  with heappop_mset[OF pop] new(1,2) len c2 ng show ?thesis
    by (intro exI[of _ cur] exI[of _ open1] exI[of _ new]) auto
qed

lemma a_star_step_path:
  assumes "a_star_step m g mode (open_list, closed_list) = Inl (Inr r)"
  shows "\<exists>cur \<in> set open_list. position cur = position g \<and> r = Some (path_to_goal cur)"
proof -
  from assms obtain cur open1 where pop: "heappop open_list = Inr (cur, open1)"
    by (auto simp: a_star_step_def split: sum.splits)
  from heappop_mset[OF pop] have "cur \<in># mset open_list" by simp
  then have "cur \<in> set open_list" by simp
  moreover from assms pop have "position cur = position g \<and> r = Some (path_to_goal cur)"
    by (auto simp: a_star_step_def Let_def split: if_splits sum.splits)
  ultimately show ?thesis by blast
qed

lemma a_star_step_error:
  assumes "a_star_step m g mode (open_list, closed_list) = Inl (Inl e)"
    and "open_list \<noteq> []"
  shows "\<exists>cur \<in> set open_list. \<exists>d \<in> set directions.
           get_cell_value m (neighbour (position cur) d) = Inl e"
proof -
  from assms(2) obtain cur open1 where pop: "heappop open_list = Inr (cur, open1)"
    by (cases "butlast open_list = []") (auto simp: heappop_def Let_def)
  from heappop_mset[OF pop] have "cur \<in># mset open_list" by simp
  then have cur: "cur \<in> set open_list" by simp
  show ?thesis
  proof (cases "generate_children m cur directions ([], position cur)")
    case (Inl e')
    with assms(1) pop have "e' = e"
      by (auto simp: a_star_step_def Let_def split: if_splits)
    with generate_children_Inl Inl cur show ?thesis by blast
  next
    case (Inr r)
    obtain children cp where r: "r = (children, cp)" by (cases r)
    from assms(1) pop Inr r
    have "push_children m children cp cur g mode (closed_list @ [position cur]) open1 = Inl e"
      by (auto simp: a_star_step_def Let_def split: if_splits sum.splits)
    from push_children_Inl[OF this] generate_children_last[OF Inr[unfolded r]]
    have "get_cell_value m (neighbour (position cur) (last directions)) = Inl e"
      by (simp add: directions_def)
    moreover have "last directions \<in> set directions" by (simp add: directions_def)
    ultimately show ?thesis using cur by blast
  qed
qed


lemma unclosed_append_le: "unclosed m (closed_list @ [p]) \<le> unclosed m closed_list"
  unfolding unclosed_def by (rule card_mono) (auto simp: finite_box)

lemma unclosed_append_new:
  assumes "p \<in> box m" "p \<notin> set closed_list"
  shows "unclosed m closed_list = Suc (unclosed m (closed_list @ [p]))"
proof -
  have "box m - set (closed_list @ [p]) = (box m - set closed_list) - {p}" by auto
  moreover have "p \<in> box m - set closed_list" using assms by simp
  moreover have "finite (box m - set closed_list)" by (simp add: finite_box)
  ultimately show ?thesis
    unfolding unclosed_def by (metis card_Suc_Diff1)
qed

lemma unclosed_append_old:
  assumes "p \<notin> box m \<or> p \<in> set closed_list"
  shows "unclosed m (closed_list @ [p]) = unclosed m closed_list"
proof -
  have "box m - set (closed_list @ [p]) = box m - set closed_list" using assms by auto
  then show ?thesis by (simp add: unclosed_def)
qed

lemma lvl_append_le: "lvl m (closed_list @ [p]) q \<le> lvl m closed_list q"
proof (cases "p \<in> box m \<and> p \<notin> set closed_list")
  case True
  then have "unclosed m closed_list = Suc (unclosed m (closed_list @ [p]))"
    by (simp add: unclosed_append_new)
  then show ?thesis by (auto simp: lvl_def)
next
  case False
  then have "unclosed m (closed_list @ [p]) = unclosed m closed_list"
    by (intro unclosed_append_old) auto
  with False show ?thesis by (auto simp: lvl_def)
qed

lemma sum_mset_mono_fun:
  fixes f g :: "'a \<Rightarrow> nat"
  assumes "\<And>x. f x \<le> g x"
  shows "sum_mset (image_mset f M) \<le> sum_mset (image_mset g M)"
  by (induction M) (auto intro: add_mono assms)

lemma sum_mset_bounded:
  fixes f :: "'a \<Rightarrow> nat"
  assumes "\<forall>x \<in> set xs. f x \<le> b"
  shows "sum_mset (image_mset f (mset xs)) \<le> length xs * b"
  using assms by (induction xs) (auto intro: add_mono)

lemma a_star_step_potential:
  assumes "a_star_step m g mode (open_list, closed_list) = Inr (open2, closed2)"
  shows "potential m open2 closed2 < potential m open_list closed_list"
proof -
  from a_star_step_Inr[OF assms] obtain cur open1 new where
    o: "mset open_list = add_mset cur (mset open1)" and
    o2: "mset open2 = mset open1 + mset new" and
    c2: "closed2 = closed_list @ [position cur]" and
    len: "length new \<le> 4" and
    new: "\<forall>n \<in> set new. child_of m cur n \<and> position n \<notin> set closed2"
    by blast
  let ?w = "\<lambda>cl n. (5::nat) ^ lvl m cl (position n)"
  let ?u2 = "unclosed m closed2"
  have old: "sum_mset (image_mset (?w closed2) (mset open1)) \<le> sum_mset (image_mset (?w closed_list) (mset open1))"
    unfolding c2 by (rule sum_mset_mono_fun) (simp add: lvl_append_le)
  have "\<forall>n \<in> set new. ?w closed2 n \<le> 5 ^ ?u2"
  proof
    fix n assume "n \<in> set new"
    with new have "position n \<in> box m" "position n \<notin> set closed2"
      by (auto simp: child_of_def dest: get_cell_value_box)
    then show "?w closed2 n \<le> 5 ^ ?u2" by (simp add: lvl_def)
  qed
  from sum_mset_bounded[OF this] len
  have newb: "sum_mset (image_mset (?w closed2) (mset new)) \<le> 4 * 5 ^ ?u2"
    by (meson le_trans mult_le_mono1)
  have cur: "4 * 5 ^ ?u2 < ?w closed_list cur"
  proof (cases "position cur \<in> box m \<and> position cur \<notin> set closed_list")
    case True
    then have "unclosed m closed_list = Suc ?u2"
      unfolding c2 by (simp add: unclosed_append_new)
    with True show ?thesis by (simp add: lvl_def)
  next
    case False
    then have "?u2 = unclosed m closed_list"
      unfolding c2 by (intro unclosed_append_old) auto
    with False show ?thesis by (auto simp: lvl_def)
  qed
  have "potential m open2 closed2
          = sum_mset (image_mset (?w closed2) (mset open1)) + sum_mset (image_mset (?w closed2) (mset new))"
    by (simp add: potential_def o2)
  also have "\<dots> < sum_mset (image_mset (?w closed_list) (mset open1)) + ?w closed_list cur"
    using old newb cur by linarith
  also have "\<dots> = potential m open_list closed_list"
    by (simp add: potential_def o)
  finally show ?thesis .
qed

termination a_star_loop
proof (relation "measure (\<lambda>(m, g, mode, open_list, closed_list). potential m open_list closed_list)")
  show "wf (measure (\<lambda>(m, g, mode, open_list, closed_list). potential m open_list closed_list))"
    by simp
next
  fix m g mode open_list closed_list x2 x y
  assume "open_list \<noteq> []"
    and "a_star_step m g mode (open_list, closed_list) = Inr x2"
    and "(x, y) = x2"
  then have "a_star_step m g mode (open_list, closed_list) = Inr (x, y)" by simp
  from a_star_step_potential[OF this]
  show "((m, g, mode, x, y), (m, g, mode, open_list, closed_list))
          \<in> measure (\<lambda>(m, g, mode, open_list, closed_list). potential m open_list closed_list)"
    by simp
qed


declare a_star_loop.simps [simp del]

section \<open>The example maps\<close>

text \<open>
  Each example map is what the constructor builds from its grid.
\<close>

lemma walled_map_init: "init_map (1, 1) (1, 3) (Some (1, 3)) walled_grid = Inr walled_map"
  by (simp add: init_map_def read_map_def walled_grid_def walled_map_def walled_symbols_def
      get_cell_value_def set_cell_value_def np_get_def np_set_def np_index_def nrows_def ncols_def
      cost_symbol_def str_of_value_def)

lemma moving_map_init: "init_map (1, 1) (1, 3) (Some (2, 1)) walled_grid = Inr moving_map"
  by (simp add: init_map_def read_map_def walled_grid_def moving_map_def walled_symbols_def
      get_cell_value_def set_cell_value_def np_get_def np_set_def np_index_def nrows_def ncols_def
      cost_symbol_def str_of_value_def)

lemma open_map_init: "init_map (2, 2) (1, 1) (Some (1, 1)) open_grid = Inr open_map"
  by (simp add: init_map_def read_map_def open_grid_def open_map_def
      get_cell_value_def set_cell_value_def np_get_def np_set_def np_index_def nrows_def ncols_def
      cost_symbol_def str_of_value_def)

lemma split_map_init: "init_map (1, 1) (1, 3) (Some (1, 3)) split_grid = Inr split_map"
  by (simp add: init_map_def read_map_def split_grid_def split_map_def
      get_cell_value_def set_cell_value_def np_get_def np_set_def np_index_def nrows_def ncols_def
      cost_symbol_def str_of_value_def)

text \<open>
  Two runs of the search, computed step by step.
\<close>

lemma walled_run: "a_star walled_map (1, 1) (1, 3) 1 = Inr (Some [(1, 1), (1, 2), (1, 3)])"
  by code_simp

lemma open_run: "a_star open_map (2, 2) (1, 1) 1 = Inl IndexError"
  by code_simp

lemma split_cells:
  "get_cell_value split_map (2, 1) = Inr (-1)" "get_cell_value split_map (1, 2) = Inr (-1)"
  "get_cell_value split_map (0, 1) = Inr (-1)" "get_cell_value split_map (1, 0) = Inr (-1)"
  "get_cell_value split_map (1, 1) = Inr 1" "get_cell_value split_map (1, 3) = Inr 1"
  by (simp_all add: get_cell_value_def split_map_def split_grid_def np_get_def np_index_def
      nrows_def ncols_def)

lemma open_cells:
  "get_cell_value open_map (0, 1) = Inr (-1)" "get_cell_value open_map (2, 1) = Inr (-1)"
  "get_cell_value open_map (1, 0) = Inr (-1)" "get_cell_value open_map (1, 2) = Inr (-1)"
  "get_cell_value open_map (2, 2) = Inr 1" "get_cell_value open_map (1, 1) = Inr 1"
  by (simp_all add: get_cell_value_def open_map_def open_grid_def np_get_def np_index_def
      nrows_def ncols_def)

lemma moving_map_inv: "map_inv moving_map"
  by (simp add: map_inv_def moving_map_def walled_grid_def walled_symbols_def in_grid_def
      get_cell_value_def np_get_def np_index_def nrows_def ncols_def)

section \<open>The returned path and the parent links\<close>

lemma heappush_empty: "heappush [] n = [n]"
  by (simp add: heappush_def siftdown_def siftdown_loop.simps)

lemma heappop_single: "heappop [n] = Inr (n, [])"
  by (simp add: heappop_def)

lemma path_loop_chain:
  "path_loop x acc = acc @ (case x of None \<Rightarrow> [] | Some n \<Rightarrow> chain n)"
  by (induction x acc rule: path_loop.induct) (auto split: option.splits)

lemma path_to_goal_chain: "path_to_goal n = rev (chain n)"
  by (simp add: path_to_goal_def path_loop_chain)

lemma from_start_child:
  "parent n = Some q \<Longrightarrow>
     from_start s n = ((\<exists>d \<in> set directions. position n = neighbour (position q) d) \<and> from_start s q)"
  by (cases n) simp

lemma a_star_step_nodes:
  assumes "a_star_step m g mode (open_list, closed_list) = Inr (open2, closed2)"
    and "n \<in> set open2"
  shows "n \<in> set open_list \<or> (\<exists>cur \<in> set open_list. child_of m cur n)"
proof -
  from a_star_step_Inr[OF assms(1)] obtain cur open1 new where
    o: "mset open_list = add_mset cur (mset open1)" and
    o2: "mset open2 = mset open1 + mset new" and
    new: "\<forall>n \<in> set new. child_of m cur n \<and> position n \<notin> set closed2"
    by blast
  from o have "set open_list = insert cur (set open1)"
    by (metis set_mset_add_mset_insert set_mset_mset)
  moreover from o2 have "set open2 = set open1 \<union> set new"
    by (metis set_mset_mset set_mset_union)
  ultimately show ?thesis using new assms(2) by auto
qed

lemma a_star_loop_path:
  "\<forall>n \<in> set open_list. from_start s n \<Longrightarrow>
   a_star_loop m g mode open_list closed_list = Inr (Some path) \<Longrightarrow>
   \<exists>n. from_start s n \<and> position n = position g \<and> path = path_to_goal n"
proof (induction m g mode open_list closed_list rule: a_star_loop.induct)
  case (1 m g mode open_list closed_list)
  from "1.prems"(2) have ne: "open_list \<noteq> []"
    by (auto simp: a_star_loop.simps)
  show ?case
  proof (cases "a_star_step m g mode (open_list, closed_list)")
    case (Inl r)
    with "1.prems"(2) ne have "r = Inr (Some path)"
      by (simp add: a_star_loop.simps)
    with Inl a_star_step_path[of m g mode open_list closed_list "Some path"] "1.prems"(1)
    show ?thesis by auto
  next
    case (Inr st)
    obtain open2 closed2 where st: "st = (open2, closed2)" by (cases st)
    have step: "a_star_step m g mode (open_list, closed_list) = Inr (open2, closed2)"
      using Inr st by simp
    have inv: "\<forall>n \<in> set open2. from_start s n"
    proof
      fix n assume "n \<in> set open2"
      from a_star_step_nodes[OF step this] "1.prems"(1) show "from_start s n"
        by (auto simp: child_of_def from_start_child)
    qed
    have "a_star_loop m g mode open2 closed2 = Inr (Some path)"
      using "1.prems"(2) ne step by (simp add: a_star_loop.simps)
    from "1.IH"[OF ne Inr st[symmetric] inv this] show ?thesis .
  qed
qed

lemma a_star_path_node:
  assumes "a_star m start goal mode = Inr (Some path)"
  shows "\<exists>n. from_start start n \<and> position n = goal \<and> path = path_to_goal n"
proof -
  have "\<forall>n \<in> set (heappush [] (Node start None 0 0 0)). from_start start n"
    by (simp add: heappush_empty)
  from a_star_loop_path[OF this, of m "Node goal None 0 0 0" mode "[]" path] assms
  show ?thesis by (simp add: a_star_def)
qed

lemma contiguous_snoc:
  "contiguous (ys @ [p]) = (contiguous ys \<and> (ys \<noteq> [] \<longrightarrow> orthogonal_step (last ys) p))"
  by (induction ys rule: contiguous.induct) auto

lemma neighbour_step: "d \<in> set directions \<Longrightarrow> orthogonal_step q (neighbour q d)"
  by (auto simp: directions_def neighbour_def orthogonal_step_def)

lemma chain_hd: "chain n \<noteq> [] \<and> hd (chain n) = position n"
  by (cases n) simp

lemma from_start_chain:
  "from_start s n \<Longrightarrow>
     last (chain n) = s \<and> contiguous (rev (chain n)) \<and> root n = Node s None 0 0 0"
proof (induction n rule: chain.induct)
  case (1 p par a h t)
  show ?case
  proof (cases par)
    case None
    with "1.prems" show ?thesis by simp
  next
    case (Some q)
    with "1.prems" obtain d where d: "d \<in> set directions" "p = neighbour (position q) d"
      and q: "from_start s q" by auto
    from "1.IH"[OF Some q] have ih: "last (chain q) = s" "contiguous (rev (chain q))"
      "root q = Node s None 0 0 0" by auto
    have "last (rev (chain q)) = position q"
      using chain_hd[of q] by (simp add: last_rev)
    with ih d neighbour_step[OF d(1), of "position q"] chain_hd[of q] Some show ?thesis
      by (simp add: contiguous_snoc)
  qed
qed

lemma a_star_loop_enclosed:
  "\<forall>n \<in> set open_list. position n \<in> R \<Longrightarrow> position g \<notin> R \<Longrightarrow>
   \<forall>p \<in> R. \<forall>d \<in> set directions.
      \<exists>v. get_cell_value m (neighbour p d) = Inr v \<and> (v \<noteq> -1 \<longrightarrow> neighbour p d \<in> R) \<Longrightarrow>
   a_star_loop m g mode open_list closed_list = Inr None"
proof (induction m g mode open_list closed_list rule: a_star_loop.induct)
  case (1 m g mode open_list closed_list)
  show ?case
  proof (cases "open_list = []")
    case True
    then show ?thesis by (simp add: a_star_loop.simps)
  next
    case ne: False
    show ?thesis
    proof (cases "a_star_step m g mode (open_list, closed_list)")
      case (Inl r)
      have False
      proof (cases r)
        case (Inl e)
        with \<open>a_star_step m g mode (open_list, closed_list) = Inl r\<close>
        have "a_star_step m g mode (open_list, closed_list) = Inl (Inl e)" by simp
        from a_star_step_error[OF this ne] "1.prems"(1,3) show False by force
      next
        case (Inr x)
        with \<open>a_star_step m g mode (open_list, closed_list) = Inl r\<close>
        have "a_star_step m g mode (open_list, closed_list) = Inl (Inr x)" by simp
        from a_star_step_path[OF this] "1.prems"(1,2) show False by auto
      qed
      then show ?thesis ..
    next
      case (Inr st)
      obtain open2 closed2 where st: "st = (open2, closed2)" by (cases st)
      have step: "a_star_step m g mode (open_list, closed_list) = Inr (open2, closed2)"
        using Inr st by simp
      have inv: "\<forall>n \<in> set open2. position n \<in> R"
      proof
        fix n assume "n \<in> set open2"
        from a_star_step_nodes[OF step this] show "position n \<in> R"
        proof
          assume "n \<in> set open_list"
          with "1.prems"(1) show ?thesis by simp
        next
          assume "\<exists>cur \<in> set open_list. child_of m cur n"
          then obtain cur d v where "cur \<in> set open_list" "d \<in> set directions"
            "position n = neighbour (position cur) d"
            "get_cell_value m (position n) = Inr v" "v \<noteq> -1"
            by (auto simp: child_of_def)
          with "1.prems"(1,3) show ?thesis by force
        qed
      qed
      from "1.IH"[OF ne Inr st[symmetric] inv "1.prems"(2,3)]
      show ?thesis using ne step by (simp add: a_star_loop.simps)
    qed
  qed
qed

text \<open>
  When the search does return \<open>None\<close>: the cells it can reach form a set \<open>R\<close> without the
  goal, and every lookup made from a cell of \<open>R\<close> succeeds.
\<close>

lemma a_star_enclosed_no_path:
  assumes "start \<in> R" and "goal \<notin> R"
    and "\<forall>p \<in> R. \<forall>d \<in> set directions.
           \<exists>v. get_cell_value m (neighbour p d) = Inr v \<and> (v \<noteq> -1 \<longrightarrow> neighbour p d \<in> R)"
  shows "a_star m start goal mode = Inr None"
proof -
  have "\<forall>n \<in> set (heappush [] (Node start None 0 0 0)). position n \<in> R"
    using assms(1) by (simp add: heappush_empty)
  from a_star_loop_enclosed[OF this _ assms(3), of "Node goal None 0 0 0" mode "[]"] assms(2)
  show ?thesis by (simp add: a_star_def)
qed

lemma split_run: "a_star split_map (1, 1) (1, 3) 1 = Inr None"
proof -
  have "\<forall>p \<in> {(1, 1)}. \<forall>d \<in> set directions.
           \<exists>v. get_cell_value split_map (neighbour p d) = Inr v \<and>
               (v \<noteq> -1 \<longrightarrow> neighbour p d \<in> {(1, 1)})"
    by (simp add: directions_def neighbour_def split_cells)
  from a_star_enclosed_no_path[of "(1, 1)" "{(1, 1)}" "(1, 3)" split_map 1, OF _ _ this]
  show ?thesis by simp
qed

section \<open>The moving goal\<close>

lemma np_index_in_range: "0 \<le> i \<Longrightarrow> i < int n \<Longrightarrow> np_index n i = Some (nat i)"
  by (simp add: np_index_def)

lemma np_get_in_grid: "in_grid g p \<Longrightarrow> np_get g p = Inr (g ! nat (fst p) ! nat (snd p))"
  by (simp add: in_grid_def np_get_def np_index_in_range)

lemma np_set_in_grid:
  "in_grid g p \<Longrightarrow> np_set g p v = Inr (g[nat (fst p) := (g ! nat (fst p))[nat (snd p) := v]])"
  by (simp add: in_grid_def np_set_def np_index_in_range)

lemma np_set_chain_in_grid:
  "in_grid g p \<Longrightarrow>
     np_set_chain g p v = Inr (g[nat (fst p) := (g ! nat (fst p))[nat (snd p) := v]])"
  by (simp add: in_grid_def np_set_chain_def np_index_in_range)

lemma nrows_update: "nrows (g[r := (g ! r)[c := v]]) = nrows g"
  by (simp add: nrows_def)

lemma ncols_update: "ncols (g[r := (g ! r)[c := v]]) = ncols g"
proof (cases g)
  case Nil
  then show ?thesis by simp
next
  case (Cons row rest)
  then show ?thesis by (cases r) (simp_all add: ncols_def)
qed

lemma in_grid_update: "in_grid (g[r := (g ! r)[c := v]]) p = in_grid g p"
  by (simp add: in_grid_def nrows_update ncols_update)

text \<open>The constructor establishes \<open>map_inv\<close> when the goal is a cell of the grid.\<close>

lemma np_set_shape:
  "np_set g p v = Inr g1 \<Longrightarrow> nrows g1 = nrows g \<and> ncols g1 = ncols g"
  by (auto simp: np_set_def nrows_update ncols_update split: option.splits)

lemma read_map_shape:
  "nrows (snd (read_map data)) = nrows data \<and> ncols (snd (read_map data)) = ncols data"
  by (cases data) (simp_all add: read_map_def nrows_def ncols_def)

lemma init_map_inv:
  assumes "init_map start goal e data = Inr m" and "in_grid data goal"
  shows "map_inv m \<and> int_map m = data \<and> goal_pos m = goal \<and> end_goal_pos m = e \<and>
         tick_counter m = 0"
proof -
  let ?m0 = "\<lparr>start_pos = start, goal_pos = goal, end_goal_pos = e,
                int_map = fst (read_map data), str_map = snd (read_map data),
                tmp_cell_value = 0, tick_counter = 0\<rparr>"
  from assms(1) obtain v where v: "get_cell_value ?m0 goal = Inr v"
    by (auto simp: init_map_def Let_def split: sum.splits)
  from assms(1) v obtain m1 where
    m1: "set_cell_value (?m0\<lparr>tmp_cell_value := v\<rparr>) start (StrVal '' S '') True = Inr m1"
    by (auto simp: init_map_def Let_def split: sum.splits)
  from assms(1) v m1 obtain m2 where
    m2: "set_cell_value m1 goal (StrVal '' G '') True = Inr m2" and m: "m = m2\<lparr>tick_counter := 0\<rparr>"
    by (auto simp: init_map_def Let_def split: sum.splits)
  from m1 obtain s1 where s1: "np_set (snd (read_map data)) start '' S '' = Inr s1"
    and m1e: "m1 = ?m0\<lparr>tmp_cell_value := v, str_map := s1\<rparr>"
    by (auto simp: set_cell_value_def str_of_value_def split: sum.splits)
  from m2 m1e obtain s2 where s2: "np_set s1 goal '' G '' = Inr s2"
    and m2e: "m2 = ?m0\<lparr>tmp_cell_value := v, str_map := s2\<rparr>"
    by (auto simp: set_cell_value_def str_of_value_def split: sum.splits)
  have shape: "nrows s2 = nrows data" "ncols s2 = ncols data"
    using np_set_shape[OF s1] np_set_shape[OF s2] read_map_shape[of data] by simp_all
  have "get_cell_value m goal = Inr v"
    using v by (simp add: m m2e get_cell_value_def)
  with shape assms(2) show ?thesis
    by (simp add: m m2e map_inv_def read_map_def)
qed

lemma priority_step_in_grid:
  "in_grid g a \<Longrightarrow> in_grid g e \<Longrightarrow> e \<noteq> a \<Longrightarrow> in_grid g (priority_step a e)"
  by (cases a; cases e) (auto simp: in_grid_def priority_step_def)

lemma priority_step_orthogonal: "orthogonal_step a (priority_step a e)"
  by (auto simp: orthogonal_step_def priority_step_def)

lemma pick_move_priority: "end_goal_pos m = Some e \<Longrightarrow> pick_move m = Inr (priority_step (goal_pos m) e)"
  by (simp add: pick_move_def priority_step_def)

lemma move_goal_pos_in_grid:
  assumes inv: "map_inv m" and p: "in_grid (int_map m) p"
  shows "\<exists>m1. move_goal_pos m p = Inr m1 \<and> goal_pos m1 = p \<and> int_map m1 = int_map m \<and>
           tick_counter m1 = tick_counter m \<and> end_goal_pos m1 = end_goal_pos m \<and> map_inv m1"
proof -
  let ?g = "int_map m" and ?s = "str_map m" and ?old = "goal_pos m"
  let ?r = "nat (fst ?old)" and ?c = "nat (snd ?old)"
  from inv have old: "in_grid ?g ?old" and shape: "nrows ?s = nrows ?g" "ncols ?s = ncols ?g"
    and tmp: "tmp_cell_value m = ?g ! ?r ! ?c"
    by (auto simp: map_inv_def get_cell_value_def np_get_in_grid)
  have olds: "in_grid ?s ?old" and ps: "in_grid ?s p"
    using old p shape by (simp_all add: in_grid_def)
  define v where "v = ?g ! nat (fst p) ! nat (snd p)"
  have getp: "get_cell_value m p = Inr v"
    using p by (simp add: get_cell_value_def np_get_in_grid v_def)
  have seti: "np_set_chain ?g ?old (tmp_cell_value m) = Inr ?g"
    using old by (simp add: np_set_chain_in_grid tmp)
  define sv where "sv = (if tmp_cell_value m = 1 then '' . ''
             else if tmp_cell_value m = 2 then '' , ''
             else if tmp_cell_value m = 3 then '' : ''
             else if tmp_cell_value m = 4 then '' ; ''
             else str_of_int (tmp_cell_value m))"
  define s1 where "s1 = ?s[?r := (?s ! ?r)[?c := sv]]"
  have sets1: "np_set_chain ?s ?old sv = Inr s1"
    using olds by (simp add: np_set_chain_in_grid s1_def)
  have ps1: "in_grid s1 p" using ps by (simp add: s1_def in_grid_update)
  define s2 where "s2 = s1[nat (fst p) := (s1 ! nat (fst p))[nat (snd p) := '' G '']]"
  have sets2: "np_set s1 p '' G '' = Inr s2"
    using ps1 by (simp add: np_set_in_grid s2_def)
  have shape2: "nrows s2 = nrows ?g" "ncols s2 = ncols ?g"
    using shape by (simp_all add: s2_def s1_def nrows_update ncols_update)
  define m1 where "m1 = m\<lparr>tmp_cell_value := v, goal_pos := p, int_map := ?g, str_map := s2\<rparr>"
  have "move_goal_pos m p = Inr m1"
    using getp seti sets1 sets2
    by (simp add: move_goal_pos_def replace_map_values_def Let_def m1_def sv_def)
  moreover have "map_inv m1"
    using p shape2 getp by (simp add: map_inv_def m1_def get_cell_value_def)
  ultimately show ?thesis by (simp add: m1_def)
qed

lemma tick_idle:
  "tick_counter m mod 4 \<noteq> 0 \<Longrightarrow>
     tick m = Inr (goal_pos m, m\<lparr>tick_counter := tick_counter m + 1\<rparr>)"
  by (simp add: tick_def)

lemma tick_move:
  assumes "map_inv m" "end_goal_pos m = Some e" "in_grid (int_map m) e" "e \<noteq> goal_pos m"
    "tick_counter m mod 4 = 0"
  shows "\<exists>m1. tick m = Inr (priority_step (goal_pos m) e, m1) \<and>
           goal_pos m1 = priority_step (goal_pos m) e \<and> int_map m1 = int_map m \<and>
           tick_counter m1 = tick_counter m + 1 \<and> end_goal_pos m1 = Some e \<and> map_inv m1"
proof -
  have "in_grid (int_map m) (priority_step (goal_pos m) e)"
    using assms(1,3,4) by (intro priority_step_in_grid) (auto simp: map_inv_def)
  from move_goal_pos_in_grid[OF assms(1) this] obtain m1 where m1:
    "move_goal_pos m (priority_step (goal_pos m) e) = Inr m1"
    "goal_pos m1 = priority_step (goal_pos m) e" "int_map m1 = int_map m"
    "tick_counter m1 = tick_counter m" "end_goal_pos m1 = end_goal_pos m" "map_inv m1"
    by blast
  have "tick m = Inr (priority_step (goal_pos m) e, m1\<lparr>tick_counter := tick_counter m1 + 1\<rparr>)"
    using assms(2,4,5) m1(1,2) by (simp add: tick_def pick_move_priority)
  moreover have "map_inv (m1\<lparr>tick_counter := tick_counter m1 + 1\<rparr>)"
    using m1(6) by (simp add: map_inv_def get_cell_value_def)
  ultimately show ?thesis using m1 assms(2) by simp
qed

lemma ticks_idle:
  "\<forall>i < n. (tick_counter m + int i) mod 4 \<noteq> 0 \<Longrightarrow>
     ticks n m = Inr (replicate n (goal_pos m), m\<lparr>tick_counter := tick_counter m + int n\<rparr>)"
proof (induction n arbitrary: m)
  case 0
  then show ?case by simp
next
  case (Suc n)
  have c0: "tick_counter m mod 4 \<noteq> 0"
    using Suc.prems[rule_format, of 0] by simp
  define m1 where "m1 = m\<lparr>tick_counter := tick_counter m + 1\<rparr>"
  have t: "tick m = Inr (goal_pos m, m1)"
    unfolding m1_def by (rule tick_idle[OF c0])
  have "\<forall>i < n. (tick_counter m1 + int i) mod 4 \<noteq> 0"
  proof (intro allI impI)
    fix i assume "i < n"
    then have "Suc i < Suc n" by simp
    from Suc.prems[rule_format, OF this]
    have ne: "(tick_counter m + int (Suc i)) mod 4 \<noteq> 0" .
    have eq: "tick_counter m1 + int i = tick_counter m + int (Suc i)"
      by (simp add: m1_def)
    show "(tick_counter m1 + int i) mod 4 \<noteq> 0"
      unfolding eq by (rule ne)
  qed
  from Suc.IH[OF this]
  have r: "ticks n m1 = Inr (replicate n (goal_pos m1), m1\<lparr>tick_counter := tick_counter m1 + int n\<rparr>)" .
  have e: "m1\<lparr>tick_counter := tick_counter m1 + int n\<rparr> = m\<lparr>tick_counter := tick_counter m + int (Suc n)\<rparr>"
    by (simp add: m1_def)
  have g: "goal_pos m1 = goal_pos m" by (simp add: m1_def)
  show ?case
    unfolding ticks.simps t using r e g by simp
qed

lemma ticks_add:
  "ticks (a + b) m =
     (case ticks a m of
        Inl e \<Rightarrow> Inl e
      | Inr (ps, m1) \<Rightarrow>
          (case ticks b m1 of Inl e \<Rightarrow> Inl e | Inr (qs, m2) \<Rightarrow> Inr (ps @ qs, m2)))"
  by (induction a arbitrary: m) (auto split: sum.splits)

lemma next_fourth:
  fixes c :: int
  obtains k :: nat where "k < 4" "(c + int k) mod 4 = 0"
    "\<forall>i < k. (c + int i) mod 4 \<noteq> 0" "\<forall>i < 3 - k. (c + int k + 1 + int i) mod 4 \<noteq> 0"
proof -
  define k where "k = nat ((- c) mod 4)"
  have k: "int k = (- c) mod 4" by (simp add: k_def)
  have 1: "k < 4" using k by presburger
  have 2: "(c + int k) mod 4 = 0" unfolding k by presburger
  have 3: "\<forall>i < k. (c + int i) mod 4 \<noteq> 0"
  proof (intro allI impI)
    fix i assume "i < k"
    then have "int i < (- c) mod 4" "0 \<le> int i" using k by simp_all
    then show "(c + int i) mod 4 \<noteq> 0" by presburger
  qed
  have 4: "\<forall>i < 3 - k. (c + int k + 1 + int i) mod 4 \<noteq> 0"
  proof (intro allI impI)
    fix i assume "i < 3 - k"
    then have "int i + int k < 3" "0 \<le> int i" by simp_all
    with 2 show "(c + int k + 1 + int i) mod 4 \<noteq> 0" by presburger
  qed
  from that[OF 1 2 3 4] show thesis .
qed

lemma ticks_one:
  "ticks (Suc 0) m = (case tick m of Inl e \<Rightarrow> Inl e | Inr (p, m1) \<Rightarrow> Inr ([p], m1))"
  by (simp split: sum.splits)

lemma replace_map_values_counter:
  "replace_map_values m p v gp = Inr m1 \<Longrightarrow> tick_counter m1 = tick_counter m"
  by (auto simp: replace_map_values_def Let_def split: sum.splits)

lemma move_goal_pos_counter: "move_goal_pos m p = Inr m1 \<Longrightarrow> tick_counter m1 = tick_counter m"
  by (auto simp: move_goal_pos_def Let_def split: sum.splits dest: replace_map_values_counter)

lemma tick_counter_mono: "tick m = Inr (p, m1) \<Longrightarrow> tick_counter m \<le> tick_counter m1"
  by (auto simp: tick_def split: if_splits option.splits sum.splits dest: move_goal_pos_counter)

lemma ticks_counter_mono: "ticks n m = Inr (ps, m2) \<Longrightarrow> tick_counter m \<le> tick_counter m2"
proof (induction n arbitrary: m ps)
  case 0
  then show ?case by simp
next
  case (Suc n)
  from Suc.prems obtain p m1 qs where t: "tick m = Inr (p, m1)" and r: "ticks n m1 = Inr (qs, m2)"
    by (auto split: sum.splits)
  from tick_counter_mono[OF t] Suc.IH[OF r] show ?case by simp
qed

section \<open>The claims\<close>

text \<open>
  C1 (optimality of the returned path). The claim does not hold of the code:
  \<open>add_costs\<close> adds the cost of the cell west of the expanded node to every child, not
  the cost of the child's own cell. On \<open>walled_map\<close>, where every cost is at least 1, the
  Manhattan search from (1,1) to (1,3) returns the path through the cell of cost 4,
  of total cost 5, although the path through the lower row is obstacle-free and costs 4.
\<close>

theorem a_star_not_optimal:
  "a_star walled_map (1, 1) (1, 3) 1 = Inr (Some [(1, 1), (1, 2), (1, 3)])
   \<and> path_cost walled_map [(1, 1), (1, 2), (1, 3)] = 5
   \<and> is_path walled_map (1, 1) (1, 3) [(1, 1), (2, 1), (2, 2), (2, 3), (1, 3)]
   \<and> path_cost walled_map [(1, 1), (2, 1), (2, 2), (2, 3), (1, 3)] = 4"
proof -
  have cells: "get_cell_value walled_map (1, 2) = Inr 4" "get_cell_value walled_map (1, 3) = Inr 1"
    "get_cell_value walled_map (1, 1) = Inr 1" "get_cell_value walled_map (2, 1) = Inr 1"
    "get_cell_value walled_map (2, 2) = Inr 1" "get_cell_value walled_map (2, 3) = Inr 1"
    by (simp_all add: get_cell_value_def walled_map_def walled_grid_def np_get_def np_index_def
        nrows_def ncols_def)
  have dims: "nrows (int_map walled_map) = 4" "ncols (int_map walled_map) = 5"
    by (simp_all add: walled_map_def walled_grid_def nrows_def ncols_def)
  have "path_cost walled_map [(1, 1), (1, 2), (1, 3)] = 5"
    by (simp add: path_cost_def cell_cost_def cells)
  moreover have "is_path walled_map (1, 1) (1, 3) [(1, 1), (2, 1), (2, 2), (2, 3), (1, 3)]"
    by (simp add: is_path_def passable_def in_grid_def orthogonal_step_def cells dims)
  moreover have "path_cost walled_map [(1, 1), (2, 1), (2, 2), (2, 3), (1, 3)] = 4"
    by (simp add: path_cost_def cell_cost_def cells)
  ultimately show ?thesis
    using walled_run by simp
qed

text \<open>
  C2 (lookups outside the grid). As stated the claim fails: a negative index down to
  minus the axis length does not raise, it counts from the end of the axis. The position
  (-2, -4) is outside the 4 x 5 grid and its lookup returns the cost of cell (2, 1).
\<close>

theorem get_cell_value_negative_wraps:
  "\<not> in_grid (int_map walled_map) (-2, -4) \<and> get_cell_value walled_map (-2, -4) = Inr 1"
  by (simp add: in_grid_def get_cell_value_def walled_map_def walled_grid_def np_get_def
      np_index_def nrows_def ncols_def)

text \<open>
  C2, amended. \<open>get_cell_value\<close> fails exactly when the row is at least the number of
  rows or less than its negation, or the column is at least the number of columns or
  less than its negation; the failure is IndexError whenever both indices fit 64 bits.
  A negative row or column within that range does not fail: it reads the cell counted
  from the end of the axis.
\<close>

theorem get_cell_value_index:
  "((\<exists>e. get_cell_value m (r, c) = Inl e) =
      (r < - int (nrows (int_map m)) \<or> int (nrows (int_map m)) \<le> r \<or>
       c < - int (ncols (int_map m)) \<or> int (ncols (int_map m)) \<le> c)) \<and>
   (fits_intp r \<and> fits_intp c \<longrightarrow>
      (get_cell_value m (r, c) = Inl IndexError) =
        (r < - int (nrows (int_map m)) \<or> int (nrows (int_map m)) \<le> r \<or>
         c < - int (ncols (int_map m)) \<or> int (ncols (int_map m)) \<le> c)) \<and>
   (- int (nrows (int_map m)) \<le> r \<and> r < 0 \<and>
    - int (ncols (int_map m)) \<le> c \<and> c < int (ncols (int_map m)) \<longrightarrow>
      get_cell_value m (r, c) = get_cell_value m (r + int (nrows (int_map m)), c)) \<and>
   (- int (ncols (int_map m)) \<le> c \<and> c < 0 \<and>
    - int (nrows (int_map m)) \<le> r \<and> r < int (nrows (int_map m)) \<longrightarrow>
      get_cell_value m (r, c) = get_cell_value m (r, c + int (ncols (int_map m))))"
proof -
  let ?oor = "r < - int (nrows (int_map m)) \<or> int (nrows (int_map m)) \<le> r \<or>
              c < - int (ncols (int_map m)) \<or> int (ncols (int_map m)) \<le> c"
  have fails: "(\<exists>e. get_cell_value m (r, c) = Inl e) = ?oor"
    by (auto simp: get_cell_value_def np_get_def np_index_def split: option.splits)
  have kind: "fits_intp r \<and> fits_intp c \<longrightarrow> (get_cell_value m (r, c) = Inl IndexError) = ?oor"
    by (auto simp: get_cell_value_def np_get_def np_index_def subscript_error_def
        split: option.splits)
  have rows: "- int (nrows (int_map m)) \<le> r \<and> r < 0 \<and>
      - int (ncols (int_map m)) \<le> c \<and> c < int (ncols (int_map m)) \<longrightarrow>
      get_cell_value m (r, c) = get_cell_value m (r + int (nrows (int_map m)), c)"
    by (auto simp: get_cell_value_def np_get_def np_index_def split: option.splits)
  have cols: "- int (ncols (int_map m)) \<le> c \<and> c < 0 \<and>
      - int (nrows (int_map m)) \<le> r \<and> r < int (nrows (int_map m)) \<longrightarrow>
      get_cell_value m (r, c) = get_cell_value m (r, c + int (ncols (int_map m)))"
    by (auto simp: get_cell_value_def np_get_def np_index_def split: option.splits)
  from fails kind rows cols show ?thesis by blast
qed

theorem get_cell_value_index_witness:
  "get_cell_value walled_map (4, 1) = Inl IndexError \<and>
   get_cell_value walled_map (1, -6) = Inl IndexError \<and>
   get_cell_value walled_map (-2, 1) = get_cell_value walled_map (2, 1) \<and>
   get_cell_value walled_map (1, -3) = get_cell_value walled_map (1, 2) \<and>
   (\<exists>e. get_cell_value walled_map (2 ^ 63, 0) = Inl e)"
proof -
  have d: "nrows (int_map walled_map) = 4" "ncols (int_map walled_map) = 5"
    by (simp_all add: walled_map_def walled_grid_def nrows_def ncols_def)
  have f: "fits_intp 4" "fits_intp 1" "fits_intp (-6)"
    by (simp_all add: fits_intp_def)
  show ?thesis
    using get_cell_value_index[of walled_map 4 1] get_cell_value_index[of walled_map 1 "-6"]
      get_cell_value_index[of walled_map "-2" 1] get_cell_value_index[of walled_map 1 "-3"]
      get_cell_value_index[of walled_map "2 ^ 63" 0]
    by (simp add: d f)
qed

text \<open>
  C3 (every call of \<open>tick\<close> increments the counter). As stated the claim fails: when the
  counter is a multiple of 4 and the end goal equals the goal, \<open>tick\<close> returns the goal
  and leaves the object as it was. \<open>walled_map\<close> is built with the end goal equal to the
  goal and has the counter 0; after a call the counter is still 0.
\<close>

theorem tick_no_increment:
  "end_goal_pos walled_map = Some (goal_pos walled_map) \<and> tick_counter walled_map = 0 \<and>
   tick walled_map = Inr ((1, 3), walled_map)"
  by (simp add: tick_def walled_map_def)

text \<open>
  C3, amended. A call of \<open>tick\<close> made while the counter is not a multiple of 4 returns the
  goal and increments the counter by exactly one. A call made while the counter is a
  multiple of 4 and the end goal is unset or equals the goal returns the goal and leaves
  the counter, and the whole object, unchanged. A call that relocates the goal increments
  the counter by exactly one. Over any sequence of calls the counter never decreases.
\<close>

theorem tick_counter_rule:
  "(tick_counter m mod 4 \<noteq> 0 \<longrightarrow>
      tick m = Inr (goal_pos m, m\<lparr>tick_counter := tick_counter m + 1\<rparr>)) \<and>
   (tick_counter m mod 4 = 0 \<and> (end_goal_pos m = None \<or> end_goal_pos m = Some (goal_pos m)) \<longrightarrow>
      tick m = Inr (goal_pos m, m)) \<and>
   (tick_counter m mod 4 = 0 \<and> end_goal_pos m = Some e \<and> e \<noteq> goal_pos m \<and>
    tick m = Inr (p, m1) \<longrightarrow>
      tick_counter m1 = tick_counter m + 1) \<and>
   (ticks n m = Inr (ps, m2) \<longrightarrow> tick_counter m \<le> tick_counter m2)"
proof -
  have idle: "tick_counter m mod 4 \<noteq> 0 \<longrightarrow>
      tick m = Inr (goal_pos m, m\<lparr>tick_counter := tick_counter m + 1\<rparr>)"
    by (simp add: tick_idle)
  have guard: "tick_counter m mod 4 = 0 \<and>
      (end_goal_pos m = None \<or> end_goal_pos m = Some (goal_pos m)) \<longrightarrow>
      tick m = Inr (goal_pos m, m)"
    by (auto simp: tick_def)
  have move: "tick_counter m mod 4 = 0 \<and> end_goal_pos m = Some e \<and> e \<noteq> goal_pos m \<and>
      tick m = Inr (p, m1) \<longrightarrow> tick_counter m1 = tick_counter m + 1"
  proof (intro impI, elim conjE)
    assume h: "tick_counter m mod 4 = 0" "end_goal_pos m = Some e" "e \<noteq> goal_pos m"
      and t: "tick m = Inr (p, m1)"
    from h t obtain mv m0 where mv: "move_goal_pos m mv = Inr m0"
      and m1: "m1 = m0\<lparr>tick_counter := tick_counter m0 + 1\<rparr>"
      by (auto simp: tick_def split: sum.splits)
    from move_goal_pos_counter[OF mv] m1 show "tick_counter m1 = tick_counter m + 1" by simp
  qed
  have mono: "ticks n m = Inr (ps, m2) \<longrightarrow> tick_counter m \<le> tick_counter m2"
    by (simp add: ticks_counter_mono)
  from idle guard move mono show ?thesis by blast
qed

theorem tick_counter_rule_witness:
  "tick (moving_map\<lparr>tick_counter := 1\<rparr>) = Inr ((1, 3), moving_map\<lparr>tick_counter := 2\<rparr>) \<and>
   tick walled_map = Inr ((1, 3), walled_map) \<and>
   (\<exists>p m1. tick moving_map = Inr (p, m1) \<and> tick_counter m1 = 1) \<and>
   (\<exists>ps m2. ticks 2 walled_map = Inr (ps, m2) \<and> 0 \<le> tick_counter m2)"
proof -
  have a: "tick (moving_map\<lparr>tick_counter := 1\<rparr>) = Inr ((1, 3), moving_map\<lparr>tick_counter := 2\<rparr>)"
    using tick_counter_rule[of "moving_map\<lparr>tick_counter := 1\<rparr>"]
    by (simp add: moving_map_def)
  have b: "tick walled_map = Inr ((1, 3), walled_map)"
    using tick_counter_rule[of walled_map] by (simp add: walled_map_def)
  have h: "end_goal_pos moving_map = Some (2, 1)" "in_grid (int_map moving_map) (2, 1)"
    "(2, 1) \<noteq> goal_pos moving_map" "tick_counter moving_map mod 4 = 0"
    by (simp_all add: moving_map_def in_grid_def walled_grid_def nrows_def ncols_def)
  from tick_move[OF moving_map_inv h] obtain p m1 where t: "tick moving_map = Inr (p, m1)"
    by blast
  have "tick_counter m1 = tick_counter moving_map + 1"
    using tick_counter_rule[of moving_map "(2, 1)" p m1 0 "[]" moving_map] t h by simp
  then have "tick_counter m1 = 1" by (simp add: moving_map_def)
  with t have c: "\<exists>p m1. tick moving_map = Inr (p, m1) \<and> tick_counter m1 = 1" by blast
  have two: "ticks 2 walled_map = Inr ([(1, 3), (1, 3)], walled_map)"
    by (simp add: numeral_2_eq_2 b)
  have "0 \<le> tick_counter walled_map"
    using tick_counter_rule[of walled_map _ _ _ 2 "[(1, 3), (1, 3)]" walled_map] two
    by (simp add: walled_map_def)
  with two have d: "\<exists>ps m2. ticks 2 walled_map = Inr (ps, m2) \<and> 0 \<le> tick_counter m2" by blast
  from a b c d show ?thesis by blast
qed

text \<open>
  C4 (four calls of \<open>tick\<close>). For a map as the constructor leaves it (\<open>map_inv\<close>) whose
  end goal is a cell of the grid other than the goal, four calls of \<open>tick\<close> succeed. The
  first \<open>k\<close> calls (\<open>k < 4\<close>) return the old goal and all later ones the new goal, so the
  goal is relocated exactly once and the relocating call returns the new position. The
  new goal is the cell the priority rule gives, one orthogonal step from the old goal;
  the integer map is unchanged, so the vacated cell has its original cost.
\<close>

theorem tick_four_times:
  assumes "map_inv m" and "end_goal_pos m = Some e" and "in_grid (int_map m) e"
    and "e \<noteq> goal_pos m"
  shows "\<exists>rets m4 k. ticks 4 m = Inr (rets, m4) \<and> k < 4 \<and>
           rets = replicate k (goal_pos m) @ replicate (4 - k) (goal_pos m4) \<and>
           goal_pos m4 = priority_step (goal_pos m) e \<and>
           orthogonal_step (goal_pos m) (goal_pos m4) \<and>
           int_map m4 = int_map m \<and>
           get_cell_value m4 (goal_pos m) = get_cell_value m (goal_pos m) \<and>
           tick_counter m4 = tick_counter m + 4 \<and> map_inv m4"
proof -
  obtain k :: nat where k: "k < 4" "(tick_counter m + int k) mod 4 = 0"
    "\<forall>i < k. (tick_counter m + int i) mod 4 \<noteq> 0"
    "\<forall>i < 3 - k. (tick_counter m + int k + 1 + int i) mod 4 \<noteq> 0"
    by (rule next_fourth)
  define ma where "ma = m\<lparr>tick_counter := tick_counter m + int k\<rparr>"
  have a: "ticks k m = Inr (replicate k (goal_pos m), ma)"
    unfolding ma_def by (rule ticks_idle[OF k(3)])
  have ma: "map_inv ma" "end_goal_pos ma = Some e" "in_grid (int_map ma) e" "e \<noteq> goal_pos ma"
    "tick_counter ma mod 4 = 0" "goal_pos ma = goal_pos m" "int_map ma = int_map m"
    "tick_counter ma = tick_counter m + int k"
    using assms k(2) by (simp_all add: ma_def map_inv_def get_cell_value_def)
  let ?new = "priority_step (goal_pos m) e"
  from tick_move[OF ma(1-5)] ma(6,7,8) obtain mb where mb:
    "tick ma = Inr (?new, mb)" "goal_pos mb = ?new" "int_map mb = int_map m"
    "tick_counter mb = tick_counter m + int k + 1" "map_inv mb"
    by auto
  have b: "ticks (Suc 0) ma = Inr ([?new], mb)"
    by (simp add: mb(1))
  define mc where "mc = mb\<lparr>tick_counter := tick_counter mb + int (3 - k)\<rparr>"
  have "\<forall>i < 3 - k. (tick_counter mb + int i) mod 4 \<noteq> 0"
    using k(4) by (simp add: mb(4))
  from ticks_idle[OF this]
  have c: "ticks (3 - k) mb = Inr (replicate (3 - k) ?new, mc)"
    by (simp add: mc_def mb(2))
  have four: "(4::nat) = k + (Suc 0 + (3 - k))" using k(1) by simp
  have "ticks 4 m = Inr (replicate k (goal_pos m) @ [?new] @ replicate (3 - k) ?new, mc)"
    by (subst four, subst ticks_add, simp only: a sum.case prod.case, subst ticks_add,
        simp only: b c sum.case prod.case)
  moreover have "[?new] @ replicate (3 - k) ?new = replicate (4 - k) ?new"
  proof -
    have "4 - k = Suc (3 - k)" using k(1) by simp
    then show ?thesis by simp
  qed
  moreover have "goal_pos mc = ?new" "int_map mc = int_map m"
    "tick_counter mc = tick_counter m + 4" "map_inv mc"
    using mb k(1) by (simp_all add: mc_def map_inv_def get_cell_value_def)
  moreover have "get_cell_value mc (goal_pos m) = get_cell_value m (goal_pos m)"
    using \<open>int_map mc = int_map m\<close> by (simp add: get_cell_value_def)
  ultimately show ?thesis
    using k(1) priority_step_orthogonal[of "goal_pos m" e] by auto
qed

theorem tick_four_times_witness:
  "map_inv moving_map \<and> end_goal_pos moving_map = Some (2, 1) \<and>
   in_grid (int_map moving_map) (2, 1) \<and> (2, 1) \<noteq> goal_pos moving_map \<and>
   (\<exists>rets m4. ticks 4 moving_map = Inr (rets, m4) \<and> goal_pos m4 = (2, 3) \<and>
       int_map m4 = walled_grid)"
proof -
  have h: "end_goal_pos moving_map = Some (2, 1)" "in_grid (int_map moving_map) (2, 1)"
    "(2, 1) \<noteq> goal_pos moving_map"
    by (simp_all add: moving_map_def in_grid_def walled_grid_def nrows_def ncols_def)
  have p: "priority_step (goal_pos moving_map) (2, 1) = (2, 3)"
    by (simp add: priority_step_def moving_map_def)
  have g: "int_map moving_map = walled_grid" by (simp add: moving_map_def)
  from tick_four_times[OF moving_map_inv h] obtain rets m4 where
    "ticks 4 moving_map = Inr (rets, m4)" "goal_pos m4 = (2, 3)" "int_map m4 = walled_grid"
    unfolding p g by blast
  then have "\<exists>rets m4. ticks 4 moving_map = Inr (rets, m4) \<and> goal_pos m4 = (2, 3) \<and>
       int_map m4 = walled_grid" by blast
  with moving_map_inv h show ?thesis by blast
qed

text \<open>
  C5 (contiguity). Whenever the search returns a path, consecutive positions of the path
  differ by exactly 1 in exactly one of their two components.
\<close>

theorem a_star_contiguous:
  assumes "a_star m start goal mode = Inr (Some path)"
  shows "contiguous path"
proof -
  from a_star_path_node[OF assms] obtain n where "from_start start n" "path = path_to_goal n"
    by blast
  with from_start_chain[of start n] show ?thesis
    by (simp add: path_to_goal_chain)
qed

theorem a_star_contiguous_witness:
  "a_star walled_map (1, 1) (1, 3) 1 = Inr (Some [(1, 1), (1, 2), (1, 3)]) \<and>
   contiguous [(1, 1), (1, 2), (1, 3)]"
  using a_star_contiguous[OF walled_run] walled_run by simp



text \<open>
  C7 (no path). The claim does not hold of the code: the search looks neighbours up with
  no test against the shape of the array, so it raises when it expands a cell of the last
  row or column. In \<open>open_map\<close> the goal (1,1) has an obstacle on each of its four sides
  and no path leads to it; the search from the free cell (2,2) looks up row 3 and ends
  with IndexError, where the docstring of \<open>a_star\<close> promises \<open>None\<close>.
\<close>

theorem a_star_enclosed_goal_raises:
  "get_cell_value open_map (0, 1) = Inr (-1) \<and> get_cell_value open_map (2, 1) = Inr (-1) \<and>
   get_cell_value open_map (1, 0) = Inr (-1) \<and> get_cell_value open_map (1, 2) = Inr (-1) \<and>
   get_cell_value open_map (2, 2) = Inr 1 \<and> get_cell_value open_map (1, 1) = Inr 1 \<and>
   a_star open_map (2, 2) (1, 1) 1 = Inl IndexError"
  using open_run by (simp add: open_cells)

text \<open>
  C8 (heuristic). \<open>heuristic\<close> is a function of its three arguments alone; in mode 1 it
  is the sum of the absolute differences of the rows and of the columns, in mode 2 the
  sum of the squares of these differences.
\<close>

theorem heuristic_modes:
  "heuristic a b 1 = \<bar>fst (position a) - fst (position b)\<bar> + \<bar>snd (position a) - snd (position b)\<bar>
   \<and> heuristic a b 2 = (fst (position a) - fst (position b)) ^ 2 + (snd (position a) - snd (position b)) ^ 2"
  by (simp add: heuristic_def Let_def)

text \<open>
  C9 (overlay marking). Writing a symbol into the string map with \<open>set_cell_value\<close>
  leaves the integer map as it was, so every cost lookup gives what it gave before.
\<close>

theorem set_cell_value_keeps_costs:
  "set_cell_value m p v True = Inr m1 \<Longrightarrow> int_map m1 = int_map m \<and> (\<forall>q. get_cell_value m1 q = get_cell_value m q)"
  by (auto simp: set_cell_value_def get_cell_value_def split: sum.splits)

theorem set_cell_value_keeps_costs_witness:
  "\<exists>m1. set_cell_value moving_map (2, 2) (StrVal '' G '') True = Inr m1 \<and>
        int_map m1 = walled_grid \<and> get_cell_value m1 (1, 2) = get_cell_value moving_map (1, 2)"
proof -
  obtain m1 where e: "set_cell_value moving_map (2, 2) (StrVal '' G '') True = Inr m1"
    by (simp add: set_cell_value_def moving_map_def walled_symbols_def np_set_def np_index_def
        nrows_def ncols_def)
  from set_cell_value_keeps_costs[OF e] e show ?thesis
    by (simp add: moving_map_def)
qed

text \<open>
  C10 (start equals goal). For every map, position and mode, the search with the start
  equal to the goal returns the one-element path. No property of the map is assumed, so
  the result does not depend on any lookup, and it holds when the position is an
  obstacle or lies outside the grid.
\<close>

theorem a_star_start_is_goal: "a_star m p p mode = Inr (Some [p])"
  by (simp add: a_star_def heappush_empty a_star_loop.simps a_star_step_def heappop_single
      path_to_goal_def)

end
